theory Spec2Isabelle
  imports Main "HOL-Library.AList" "HOL-Library.Sublist"
begin

section \<open>Values handled by the batch scraper\<close>

text \<open>
  The class \<^verbatim>\<open>AdvancedPlayStoreScraper\<close> of \<^verbatim>\<open>src/scraping/batch_scraper.py\<close> moves Python
  values between the upstream client, memory and JSON files. A dictionary is an
  association list in insertion order. A \<^verbatim>\<open>datetime\<close> object is represented by the text
  its \<^verbatim>\<open>isoformat()\<close> returns. Printing and progress bars are left out.
\<close>

datatype pyval =
    VNone
  | VBool bool
  | VInt int
  | VStr string
  | VDatetime string
  | VList "pyval list"
  | VDict "(string \<times> pyval) list"

type_synonym pydict = "(string \<times> pyval) list"

text \<open>\<^verbatim>\<open>_make_serializable\<close>: datetimes become their ISO text, dictionaries and lists are
  rebuilt with every value converted, anything else is returned as it is.\<close>

fun make_serializable :: "pyval \<Rightarrow> pyval" where
  "make_serializable (VDatetime isotext) = VStr isotext"
| "make_serializable (VDict kvs) = VDict (map (\<lambda>(key, v). (key, make_serializable v)) kvs)"
| "make_serializable (VList xs) = VList (map make_serializable xs)"
| "make_serializable v = v"

text \<open>A Python \<^verbatim>\<open>set\<close> of strings is a duplicate-free list. Python leaves the iteration
  order of a set unspecified; the model fixes one order, and the theorems below speak
  of membership and multiplicity only.\<close>

definition set_of_list :: "string list \<Rightarrow> string list" where
  "set_of_list xs = remdups xs"

definition set_add :: "string list \<Rightarrow> string \<Rightarrow> string list" where
  "set_add s x = List.insert x s"

section \<open>The world outside the process\<close>

text \<open>
  The checkpoint is the dictionary with the two keys \<^verbatim>\<open>scraped_app_ids\<close> and
  \<^verbatim>\<open>failed_app_ids\<close>.
\<close>

record checkpoint =
  scraped_app_ids :: "string list"
  failed_app_ids :: "string list"

datatype call =
    AppCall string
  | ReviewsCall string int
  | SearchCall string int

text \<open>
  A result of \<^verbatim>\<open>google_play_scraper.search\<close>: a dictionary whose \<^verbatim>\<open>appId\<close> entry is a
  string; the other entries are kept apart.
\<close>

record hit =
  appId :: string
  hit_fields :: pydict

text \<open>
  The upstream client and the clock's text rendering are parameters. The outcome of an
  external call depends on its arguments and on how many calls were made before it
  (the tick), so that any sequence of failures and successes can be described; \<open>Inl\<close>
  carries the text of the raised exception. \<open>latency\<close> is the time in milliseconds the
  call at a tick takes, \<open>strftime\<close> renders a whole second of the clock as the text used
  in file names.
\<close>

record env =
  app_api :: "nat \<Rightarrow> string \<Rightarrow> string + pydict"
  reviews_api :: "nat \<Rightarrow> string \<Rightarrow> int \<Rightarrow> string + pyval list"
  search_api :: "nat \<Rightarrow> string \<Rightarrow> int \<Rightarrow> string + hit list"
  latency :: "nat \<Rightarrow> nat"
  strftime :: "nat \<Rightarrow> string"

text \<open>
  The state that outlives a call: the clock (milliseconds), the log of calls made to
  the upstream client, the log of durations passed to \<^verbatim>\<open>time.sleep\<close> (milliseconds), the
  checkpoint file (\<open>None\<close> while it does not exist), the error log (second of the clock
  and message) and the JSON files of the output directory, by name, in the order
  \<^verbatim>\<open>os.listdir\<close> gives them. Reading and writing a file always succeeds, and what
  \<^verbatim>\<open>json.load\<close> reads is what \<^verbatim>\<open>json.dump\<close> wrote. \<^verbatim>\<open>time.sleep\<close> advances the clock by the
  duration asked for.
\<close>

record world =
  clock :: nat
  calls :: "call list"
  slept :: "nat list"
  checkpoint_file :: "checkpoint option"
  error_log :: "(nat \<times> string) list"
  out_dir :: "(string \<times> pyval list) list"

definition sleep :: "nat \<Rightarrow> world \<Rightarrow> world" where
  "sleep ms s = s\<lparr>clock := clock s + ms, slept := slept s @ [ms]\<rparr>"

definition call_app :: "env \<Rightarrow> string \<Rightarrow> world \<Rightarrow> (string + pydict) \<times> world" where
  "call_app e app_id s =
     (let t = length (calls s)
      in (app_api e t app_id,
          s\<lparr>clock := clock s + latency e t, calls := calls s @ [AppCall app_id]\<rparr>))"

definition call_reviews :: "env \<Rightarrow> string \<Rightarrow> int \<Rightarrow> world \<Rightarrow> (string + pyval list) \<times> world" where
  "call_reviews e app_id count s =
     (let t = length (calls s)
      in (reviews_api e t app_id count,
          s\<lparr>clock := clock s + latency e t, calls := calls s @ [ReviewsCall app_id count]\<rparr>))"

definition call_search :: "env \<Rightarrow> string \<Rightarrow> int \<Rightarrow> world \<Rightarrow> (string + hit list) \<times> world" where
  "call_search e category n_hits s =
     (let t = length (calls s)
      in (search_api e t category n_hits,
          s\<lparr>clock := clock s + latency e t, calls := calls s @ [SearchCall category n_hits]\<rparr>))"

section \<open>Checkpoint store and error log\<close>

definition load_checkpoint :: "world \<Rightarrow> checkpoint" where
  "load_checkpoint s =
     (case checkpoint_file s of
        Some c \<Rightarrow> c
      | None \<Rightarrow> \<lparr>scraped_app_ids = [], failed_app_ids = []\<rparr>)"

definition save_checkpoint :: "checkpoint \<Rightarrow> world \<Rightarrow> world" where
  "save_checkpoint c s = s\<lparr>checkpoint_file := Some c\<rparr>"

definition log_error :: "string \<Rightarrow> world \<Rightarrow> world" where
  "log_error message s = s\<lparr>error_log := error_log s @ [(clock s div 1000, message)]\<rparr>"

section \<open>Retrying detail fetch, reviews fetch, discovery\<close>

text \<open>\<^verbatim>\<open>scrape_app_safely\<close>: the loop \<^verbatim>\<open>for attempt in range(retries)\<close>, entered at
  \<open>attempt\<close>.\<close>

function scrape_attempts ::
  "env \<Rightarrow> string \<Rightarrow> nat \<Rightarrow> nat \<Rightarrow> world \<Rightarrow> pydict option \<times> world" where
  "scrape_attempts e app_id retries attempt s =
     (if attempt < retries then
        (case call_app e app_id s of
           (Inr result, s1) \<Rightarrow> (Some result, s1)
         | (Inl err, s1) \<Rightarrow>
             if attempt = retries - 1
             then (None, log_error (''Failed to scrape '' @ app_id @ '': '' @ err) s1)
             else scrape_attempts e app_id retries (attempt + 1)
                    (sleep (1000 * 2 ^ attempt) s1))
      else (None, s))"
  by pat_completeness auto
termination
  by (relation "measure (\<lambda>(e, app_id, retries, attempt, s). retries - attempt)") auto

definition scrape_app_safely :: "env \<Rightarrow> string \<Rightarrow> int \<Rightarrow> world \<Rightarrow> pydict option \<times> world" where
  "scrape_app_safely e app_id retries s = scrape_attempts e app_id (nat retries) 0 s"

definition scrape_reviews_safely ::
  "env \<Rightarrow> string \<Rightarrow> int \<Rightarrow> world \<Rightarrow> pyval list \<times> world" where
  "scrape_reviews_safely e app_id count s =
     (case call_reviews e app_id count s of
        (Inr result, s1) \<Rightarrow> (result, s1)
      | (Inl err, s1) \<Rightarrow>
          ([], log_error (''Failed to scrape reviews for '' @ app_id @ '': '' @ err) s1))"

fun discover_loop ::
  "env \<Rightarrow> int \<Rightarrow> string list \<Rightarrow> string list \<Rightarrow> world \<Rightarrow> string list \<times> world" where
  "discover_loop e apps_per_category [] all_app_ids s = (all_app_ids, s)"
| "discover_loop e apps_per_category (category # categories) all_app_ids s =
     (case call_search e category apps_per_category s of
        (Inr results, s1) \<Rightarrow>
          discover_loop e apps_per_category categories
            (foldl (\<lambda>ids result. set_add ids (appId result)) all_app_ids results)
            (sleep 1000 s1)
      | (Inl err, s1) \<Rightarrow>
          discover_loop e apps_per_category categories all_app_ids
            (log_error (''Search failed for '' @ [CHR 0x27] @ category @ [CHR 0x27] @ '': '' @ err) s1))"

definition discover_apps_by_categories ::
  "env \<Rightarrow> string list \<Rightarrow> int \<Rightarrow> world \<Rightarrow> string list \<times> world" where
  "discover_apps_by_categories e categories apps_per_category s =
     discover_loop e apps_per_category categories [] s"

section \<open>Batch files\<close>

text \<open>Writing a file replaces the file of that name or adds a new one. \<^verbatim>\<open>merge_batches\<close>
  reads the files whose name starts with \<^verbatim>\<open>apps_batch_\<close>; its best-effort CSV copy of the
  merged file is left out.\<close>

definition write_file :: "string \<Rightarrow> pyval list \<Rightarrow> world \<Rightarrow> world" where
  "write_file name content s = s\<lparr>out_dir := AList.update name content (out_dir s)\<rparr>"

text \<open>The name \<^verbatim>\<open>apps_batch_{timestamp}.json\<close> of a batch file written in the second \<open>t\<close> of
  the clock.\<close>

definition batch_file_name :: "env \<Rightarrow> nat \<Rightarrow> string" where
  "batch_file_name e t = ''apps_batch_'' @ strftime e t @ ''.json''"

definition save_batch :: "env \<Rightarrow> pyval list \<Rightarrow> world \<Rightarrow> world" where
  "save_batch e data s =
     (if data = [] then s
      else write_file (batch_file_name e (clock s div 1000)) (map make_serializable data) s)"

definition merge_batches :: "string \<Rightarrow> world \<Rightarrow> world" where
  "merge_batches output_filename s =
     (let batch_files = filter (\<lambda>(f, content). prefix ''apps_batch_'' f) (out_dir s)
      in if batch_files = [] then s
         else let all_data = concat (map snd batch_files)
              in write_file output_filename (map make_serializable all_data) s)"

section \<open>The batch runner\<close>

datatype exn = ZeroDivisionError

text \<open>The local variables of \<^verbatim>\<open>batch_scrape_apps\<close> during the loop, and the world.\<close>

record runner =
  scraped_data :: "pyval list"
  scraped_ids :: "string list"
  ckpt :: checkpoint
  wd :: world

text \<open>The block \<^verbatim>\<open>if include_reviews: ...\<close> of the loop: the reviews are fetched by one
  call of \<^verbatim>\<open>scrape_reviews_safely\<close> and stored under the key \<^verbatim>\<open>scraped_reviews\<close>.\<close>

definition attach_reviews ::
  "env \<Rightarrow> bool \<Rightarrow> int \<Rightarrow> string \<Rightarrow> pydict \<Rightarrow> world \<Rightarrow> pydict \<times> world" where
  "attach_reviews e include_reviews reviews_per_app app_id app_data s =
     (if include_reviews
      then (case scrape_reviews_safely e app_id reviews_per_app s of
              (app_reviews, s') \<Rightarrow>
                (AList.update ''scraped_reviews'' (VList app_reviews) app_data, s'))
      else (app_data, s))"

text \<open>One iteration of the loop over \<^verbatim>\<open>enumerate(remaining_ids)\<close>. A dictionary is true
  when it is not empty. \<^verbatim>\<open>(idx + 1) % save_interval\<close> raises when the interval is zero; a
  raised exception leaves the loop with the world as it is at that moment.\<close>

definition process_app ::
  "env \<Rightarrow> bool \<Rightarrow> int \<Rightarrow> int \<Rightarrow> nat \<Rightarrow> string \<Rightarrow> runner \<Rightarrow> (exn \<times> world) + runner" where
  "process_app e include_reviews reviews_per_app save_interval idx app_id r =
     (case scrape_app_safely e app_id 3 (wd r) of
        (None, s1) \<Rightarrow> Inr (r\<lparr>wd := sleep 1200 s1\<rparr>)
      | (Some app_data, s1) \<Rightarrow>
          if app_data = [] then Inr (r\<lparr>wd := sleep 1200 s1\<rparr>)
          else
            (case attach_reviews e include_reviews reviews_per_app app_id app_data s1 of
               (app_data', s2) \<Rightarrow>
                 (let data' = scraped_data r @ [VDict app_data'];
                      ids' = set_add (scraped_ids r) app_id
                  in if save_interval = 0 then Inl (ZeroDivisionError, s2)
                     else if (int idx + 1) mod save_interval = 0 then
                       (let s3 = save_batch e data' s2;
                            c' = (ckpt r)\<lparr>scraped_app_ids := ids'\<rparr>;
                            s4 = save_checkpoint c' s3
                        in Inr \<lparr>scraped_data = [], scraped_ids = ids', ckpt = c',
                                wd = sleep 1200 s4\<rparr>)
                     else Inr \<lparr>scraped_data = data', scraped_ids = ids', ckpt = ckpt r,
                               wd = sleep 1200 s2\<rparr>)))"

fun batch_loop ::
  "env \<Rightarrow> bool \<Rightarrow> int \<Rightarrow> int \<Rightarrow> nat \<Rightarrow> string list \<Rightarrow> runner \<Rightarrow> (exn \<times> world) + runner" where
  "batch_loop e include_reviews reviews_per_app save_interval idx [] r = Inr r"
| "batch_loop e include_reviews reviews_per_app save_interval idx (app_id # rest) r =
     (case process_app e include_reviews reviews_per_app save_interval idx app_id r of
        Inl x \<Rightarrow> Inl x
      | Inr r' \<Rightarrow> batch_loop e include_reviews reviews_per_app save_interval (idx + 1) rest r')"

text \<open>The list \<^verbatim>\<open>remaining_ids\<close> that \<^verbatim>\<open>batch_scrape_apps\<close> computes first, and the function
  itself.\<close>

definition remaining_ids :: "string list \<Rightarrow> world \<Rightarrow> string list" where
  "remaining_ids app_ids s =
     (let scraped = set_of_list (scraped_app_ids (load_checkpoint s))
      in filter (\<lambda>aid. aid \<notin> set scraped) app_ids)"

definition batch_scrape_apps ::
  "env \<Rightarrow> string list \<Rightarrow> bool \<Rightarrow> int \<Rightarrow> int \<Rightarrow> world \<Rightarrow> (exn \<times> world) + world" where
  "batch_scrape_apps e app_ids include_reviews reviews_per_app save_interval s =
     (let checkpoint = load_checkpoint s;
          scraped = set_of_list (scraped_app_ids checkpoint);
          remaining = filter (\<lambda>aid. aid \<notin> set scraped) app_ids
      in if remaining = [] then Inr s
         else
           (case batch_loop e include_reviews reviews_per_app save_interval 0 remaining
                   \<lparr>scraped_data = [], scraped_ids = scraped, ckpt = checkpoint, wd = s\<rparr> of
              Inl x \<Rightarrow> Inl x
            | Inr r \<Rightarrow>
                (let s1 = (if scraped_data r \<noteq> [] then save_batch e (scraped_data r) (wd r)
                           else wd r);
                     c' = (ckpt r)\<lparr>scraped_app_ids := scraped_ids r\<rparr>
                 in Inr (save_checkpoint c' s1))))"

text \<open>\<^verbatim>\<open>get_statistics\<close>: the numbers of scraped and of failed identifiers of the
  checkpoint.\<close>

definition get_statistics :: "world \<Rightarrow> nat \<times> nat" where
  "get_statistics s =
     (let checkpoint = load_checkpoint s
      in (length (scraped_app_ids checkpoint), length (failed_app_ids checkpoint)))"

text \<open>The world a run of the batch runner leaves behind, whether it returned or raised.\<close>

definition world_after :: "(exn \<times> world) + world \<Rightarrow> world" where
  "world_after res = (case res of Inl (x, s) \<Rightarrow> s | Inr s \<Rightarrow> s)"




text \<open>A record is a FetchResult for an identifier when it is a dictionary whose
  \<^verbatim>\<open>appId\<close> entry is that identifier.\<close>

definition is_record_for :: "string \<Rightarrow> pyval \<Rightarrow> bool" where
  "is_record_for x v =
     (case v of VDict kvs \<Rightarrow> map_of kvs ''appId'' = Some (VStr x) | _ \<Rightarrow> False)"

section \<open>Scenarios\<close>

text \<open>Concrete worlds and upstream behaviours on which the operations are run below. The
  clock text of the scenarios is a tally of the seconds.\<close>

definition world0 :: world where
  "world0 = \<lparr>clock = 0, calls = [], slept = [], checkpoint_file = None, error_log = [],
              out_dir = []\<rparr>"

definition tally :: "nat \<Rightarrow> string" where
  "tally t = replicate t (CHR ''I'')"

definition sample_app :: "string \<Rightarrow> pydict" where
  "sample_app a = [(''appId'', VStr a), (''score'', VInt 4)]"

definition sample_review :: pyval where
  "sample_review = VDict [(''content'', VStr ''good'')]"


text \<open>The local variables of the runner when its loop starts with no checkpoint.\<close>

definition runner0 :: runner where
  "runner0 = \<lparr>scraped_data = [], scraped_ids = [],
               ckpt = \<lparr>scraped_app_ids = [], failed_app_ids = []\<rparr>, wd = world0\<rparr>"

text \<open>An output directory with two batch files that both hold a record for \<^verbatim>\<open>X\<close>.\<close>

definition world_two_batches :: world where
  "world_two_batches =
     world0\<lparr>out_dir :=
       [(''apps_batch_20240101_000000.json'', [VDict [(''appId'', VStr ''X''), (''score'', VInt 1)]]),
        (''apps_batch_20240101_000100.json'', [VDict [(''appId'', VStr ''X''), (''score'', VInt 2)]])]\<rparr>"

text \<open>Every call of the upstream client fails.\<close>

definition env_down :: env where
  "env_down = \<lparr>app_api = (\<lambda>t a. Inl ''timeout''), reviews_api = (\<lambda>t a n. Inl ''timeout''),
                search_api = (\<lambda>t c n. Inl ''timeout''), latency = (\<lambda>t. 0), strftime = tally\<rparr>"

text \<open>Every call of the upstream client succeeds.\<close>

definition env_up :: env where
  "env_up = \<lparr>app_api = (\<lambda>t a. Inr (sample_app a)), reviews_api = (\<lambda>t a n. Inr [sample_review]),
              search_api = (\<lambda>t c n. Inr [\<lparr>appId = ''com.example.app'', hit_fields = []\<rparr>,
                                         \<lparr>appId = c, hit_fields = []\<rparr>]),
              latency = (\<lambda>t. 0), strftime = tally\<rparr>"


text \<open>The first two calls of the upstream client fail, every later one succeeds.\<close>

definition env_third_time :: env where
  "env_third_time = env_up\<lparr>app_api := (\<lambda>t a. if t < 2 then Inl ''timeout'' else Inr (sample_app a))\<rparr>"


text \<open>Only the first reviews fetch fails: it is the call made at tick 1, after the detail
  fetch at tick 0.\<close>

definition env_reviews_flaky :: env where
  "env_reviews_flaky =
     env_up\<lparr>reviews_api := (\<lambda>t a n. if t = 1 then Inl ''timeout'' else Inr [sample_review])\<rparr>"

section \<open>Auxiliary facts\<close>

subsection \<open>What each primitive changes\<close>

lemma sleep_fields:
  "clock (sleep ms s) = clock s + ms"
  "calls (sleep ms s) = calls s"
  "slept (sleep ms s) = slept s @ [ms]"
  "checkpoint_file (sleep ms s) = checkpoint_file s"
  "error_log (sleep ms s) = error_log s"
  "out_dir (sleep ms s) = out_dir s"
  by (simp_all add: sleep_def)

lemma log_error_fields:
  "clock (log_error m s) = clock s"
  "calls (log_error m s) = calls s"
  "slept (log_error m s) = slept s"
  "checkpoint_file (log_error m s) = checkpoint_file s"
  "error_log (log_error m s) = error_log s @ [(clock s div 1000, m)]"
  "out_dir (log_error m s) = out_dir s"
  by (simp_all add: log_error_def)

lemma call_app_fields:
  "fst (call_app e a s) = app_api e (length (calls s)) a"
  "clock (snd (call_app e a s)) = clock s + latency e (length (calls s))"
  "calls (snd (call_app e a s)) = calls s @ [AppCall a]"
  "slept (snd (call_app e a s)) = slept s"
  "checkpoint_file (snd (call_app e a s)) = checkpoint_file s"
  "error_log (snd (call_app e a s)) = error_log s"
  "out_dir (snd (call_app e a s)) = out_dir s"
  by (simp_all add: call_app_def Let_def)

lemma call_reviews_fields:
  "fst (call_reviews e a n s) = reviews_api e (length (calls s)) a n"
  "clock (snd (call_reviews e a n s)) = clock s + latency e (length (calls s))"
  "calls (snd (call_reviews e a n s)) = calls s @ [ReviewsCall a n]"
  "slept (snd (call_reviews e a n s)) = slept s"
  "checkpoint_file (snd (call_reviews e a n s)) = checkpoint_file s"
  "error_log (snd (call_reviews e a n s)) = error_log s"
  "out_dir (snd (call_reviews e a n s)) = out_dir s"
  by (simp_all add: call_reviews_def Let_def)

lemma call_search_fields:
  "fst (call_search e c n s) = search_api e (length (calls s)) c n"
  "clock (snd (call_search e c n s)) = clock s + latency e (length (calls s))"
  "calls (snd (call_search e c n s)) = calls s @ [SearchCall c n]"
  "slept (snd (call_search e c n s)) = slept s"
  "checkpoint_file (snd (call_search e c n s)) = checkpoint_file s"
  "error_log (snd (call_search e c n s)) = error_log s"
  "out_dir (snd (call_search e c n s)) = out_dir s"
  by (simp_all add: call_search_def Let_def)

lemma save_checkpoint_fields:
  "clock (save_checkpoint c s) = clock s"
  "calls (save_checkpoint c s) = calls s"
  "slept (save_checkpoint c s) = slept s"
  "checkpoint_file (save_checkpoint c s) = Some c"
  "error_log (save_checkpoint c s) = error_log s"
  "out_dir (save_checkpoint c s) = out_dir s"
  by (simp_all add: save_checkpoint_def)

lemma write_file_fields:
  "clock (write_file n c s) = clock s"
  "calls (write_file n c s) = calls s"
  "slept (write_file n c s) = slept s"
  "checkpoint_file (write_file n c s) = checkpoint_file s"
  "error_log (write_file n c s) = error_log s"
  "out_dir (write_file n c s) = AList.update n c (out_dir s)"
  by (simp_all add: write_file_def)

lemmas world_fields = sleep_fields log_error_fields call_app_fields call_reviews_fields
  call_search_fields save_checkpoint_fields write_file_fields

declare scrape_attempts.simps [simp del]

subsection \<open>The retry loop\<close>

lemma call_app_split: "call_app e a s = (app_api e (length (calls s)) a, snd (call_app e a s))"
  by (simp add: call_app_def Let_def)

lemma scrape_attempts_done:
  "\<not> attempt < retries \<Longrightarrow> scrape_attempts e a retries attempt s = (None, s)"
  by (subst scrape_attempts.simps) simp

lemma scrape_attempts_ok:
  "attempt < retries \<Longrightarrow> app_api e (length (calls s)) a = Inr d \<Longrightarrow>
   scrape_attempts e a retries attempt s = (Some d, snd (call_app e a s))"
  by (subst scrape_attempts.simps, subst call_app_split) simp

lemma scrape_attempts_last:
  "attempt < retries \<Longrightarrow> app_api e (length (calls s)) a = Inl err \<Longrightarrow> attempt = retries - 1 \<Longrightarrow>
   scrape_attempts e a retries attempt s
     = (None, log_error (''Failed to scrape '' @ a @ '': '' @ err) (snd (call_app e a s)))"
  by (subst scrape_attempts.simps, subst call_app_split) simp

lemma scrape_attempts_retry:
  "attempt < retries \<Longrightarrow> app_api e (length (calls s)) a = Inl err \<Longrightarrow> attempt \<noteq> retries - 1 \<Longrightarrow>
   scrape_attempts e a retries attempt s
     = scrape_attempts e a retries (attempt + 1) (sleep (1000 * 2 ^ attempt) (snd (call_app e a s)))"
  by (subst scrape_attempts.simps, subst call_app_split) simp

lemma scrape_attempts_cases:
  obtains (stop) "\<not> attempt < retries"
  | (ok) d where "attempt < retries" "app_api e (length (calls s)) a = Inr d"
  | (last) err where "attempt < retries" "app_api e (length (calls s)) a = Inl err" "attempt = retries - 1"
  | (retry) err where "attempt < retries" "app_api e (length (calls s)) a = Inl err" "attempt \<noteq> retries - 1"
  by (cases "app_api e (length (calls s)) a") auto

lemma scrape_attempts_frame:
  "out_dir (snd (scrape_attempts e a retries attempt s)) = out_dir s
   \<and> checkpoint_file (snd (scrape_attempts e a retries attempt s)) = checkpoint_file s
   \<and> clock s \<le> clock (snd (scrape_attempts e a retries attempt s))"
proof (induction "retries - attempt" arbitrary: attempt s)
  case 0
  then show ?case by (simp add: scrape_attempts_done)
next
  case (Suc k)
  show ?case
  proof (cases rule: scrape_attempts_cases[where attempt=attempt and retries=retries and e=e and s=s and a=a])
    case stop
    then show ?thesis by (simp add: scrape_attempts_done)
  next
    case (ok d)
    then show ?thesis by (simp add: scrape_attempts_ok world_fields)
  next
    case (last err)
    then show ?thesis by (simp add: scrape_attempts_last world_fields)
  next
    case (retry err)
    have k: "k = retries - (attempt + 1)" using Suc.hyps(2) by simp
    show ?thesis
      using Suc.hyps(1)[OF k, of "sleep (1000 * 2 ^ attempt) (snd (call_app e a s))"] retry
      by (simp add: scrape_attempts_retry world_fields)
  qed
qed

lemma scrape_attempts_trace:
  "\<exists>n. (attempt < retries \<longrightarrow> 1 \<le> n) \<and> n \<le> retries - attempt
     \<and> calls (snd (scrape_attempts e a retries attempt s)) = calls s @ replicate n (AppCall a)
     \<and> slept (snd (scrape_attempts e a retries attempt s))
         = slept s @ map (\<lambda>k. 1000 * 2 ^ k) [attempt ..< attempt + (n - 1)]"
proof (induction "retries - attempt" arbitrary: attempt s)
  case 0
  then show ?case by (simp add: scrape_attempts_done)
next
  case (Suc k)
  show ?case
  proof (cases rule: scrape_attempts_cases[where attempt=attempt and retries=retries and e=e and s=s and a=a])
    case stop
    then show ?thesis by (simp add: scrape_attempts_done)
  next
    case (ok d)
    then show ?thesis
      by (intro exI[of _ 1]) (simp add: scrape_attempts_ok world_fields)
  next
    case (last err)
    then show ?thesis
      by (intro exI[of _ 1]) (simp add: scrape_attempts_last world_fields)
  next
    case (retry err)
    have k: "k = retries - (attempt + 1)" using Suc.hyps(2) by simp
    let ?s1 = "sleep (1000 * 2 ^ attempt) (snd (call_app e a s))"
    from Suc.hyps(1)[OF k, of ?s1] obtain n where n:
      "attempt + 1 < retries \<longrightarrow> 1 \<le> n" "n \<le> retries - (attempt + 1)"
      "calls (snd (scrape_attempts e a retries (attempt + 1) ?s1)) = calls ?s1 @ replicate n (AppCall a)"
      "slept (snd (scrape_attempts e a retries (attempt + 1) ?s1))
         = slept ?s1 @ map (\<lambda>k. 1000 * 2 ^ k) [attempt + 1 ..< attempt + 1 + (n - 1)]"
      by blast
    have lt: "attempt + 1 < retries" using retry by simp
    then have n1: "1 \<le> n" using n(1) by simp
    have u: "[attempt ..< attempt + n] = attempt # [attempt + 1 ..< attempt + 1 + (n - 1)]"
      using n1 by (simp add: upt_rec[of attempt])
    show ?thesis
    proof (intro exI[of _ "Suc n"] conjI impI)
      show "1 \<le> Suc n" by simp
      show "Suc n \<le> retries - attempt" using n(2) lt by simp
      show "calls (snd (scrape_attempts e a retries attempt s)) = calls s @ replicate (Suc n) (AppCall a)"
        using retry n(3) by (simp add: scrape_attempts_retry world_fields)
      show "slept (snd (scrape_attempts e a retries attempt s))
         = slept s @ map (\<lambda>k. 1000 * 2 ^ k) [attempt ..< attempt + (Suc n - 1)]"
        using retry n(4) u by (simp add: scrape_attempts_retry world_fields)
    qed
  qed
qed


lemma scrape_attempts_log:
  "(case scrape_attempts e a retries attempt s of
      (Some d, s') \<Rightarrow> error_log s' = error_log s
    | (None, s') \<Rightarrow>
        if attempt < retries
        then length (calls s') = length (calls s) + (retries - attempt)
             \<and> (\<exists>err. app_api e (length (calls s') - 1) a = Inl err
                    \<and> error_log s'
                        = error_log s @ [(clock s' div 1000, ''Failed to scrape '' @ a @ '': '' @ err)])
        else s' = s)"
proof (induction "retries - attempt" arbitrary: attempt s)
  case 0
  then show ?case by (simp add: scrape_attempts_done)
next
  case (Suc k)
  show ?case
  proof (cases rule: scrape_attempts_cases[where attempt=attempt and retries=retries and e=e and s=s and a=a])
    case stop
    then show ?thesis by (simp add: scrape_attempts_done)
  next
    case (ok d)
    then show ?thesis by (simp add: scrape_attempts_ok world_fields)
  next
    case (last err)
    then show ?thesis by (simp add: scrape_attempts_last world_fields)
  next
    case (retry err)
    have k: "k = retries - (attempt + 1)" using Suc.hyps(2) by simp
    have lt: "attempt + 1 < retries" using retry by simp
    show ?thesis
      using Suc.hyps(1)[OF k, of "sleep (1000 * 2 ^ attempt) (snd (call_app e a s))"] retry lt
      by (auto simp add: scrape_attempts_retry world_fields split: prod.splits option.splits)
  qed
qed

lemma scrape_attempts_all_fail:
  "\<forall>j < retries - attempt. isl (app_api e (length (calls s) + j) a) \<Longrightarrow>
   fst (scrape_attempts e a retries attempt s) = None"
proof (induction "retries - attempt" arbitrary: attempt s)
  case 0
  then show ?case by (simp add: scrape_attempts_done)
next
  case (Suc k)
  have lt: "attempt < retries" using Suc.hyps(2) by simp
  from Suc.prems lt have "isl (app_api e (length (calls s) + 0) a)" by (meson zero_less_diff)
  then obtain err where err: "app_api e (length (calls s)) a = Inl err" by (auto simp: isl_def)
  show ?case
  proof (cases "attempt = retries - 1")
    case True
    with lt err show ?thesis by (simp add: scrape_attempts_last)
  next
    case False
    let ?s1 = "sleep (1000 * 2 ^ attempt) (snd (call_app e a s))"
    have k: "k = retries - (attempt + 1)" using Suc.hyps(2) by simp
    have "\<forall>j < retries - (attempt + 1). isl (app_api e (length (calls ?s1) + j) a)"
    proof (intro allI impI)
      fix j assume "j < retries - (attempt + 1)"
      then have "Suc j < retries - attempt" by simp
      with Suc.prems have "isl (app_api e (length (calls s) + Suc j) a)" by blast
      then show "isl (app_api e (length (calls ?s1) + j) a)" by (simp add: world_fields)
    qed
    from Suc.hyps(1)[OF k this] lt err False show ?thesis
      by (simp add: scrape_attempts_retry)
  qed
qed

lemma scrape_attempts_succeeds:
  "m < retries - attempt \<Longrightarrow> \<forall>j < m. isl (app_api e (length (calls s) + j) a) \<Longrightarrow>
   app_api e (length (calls s) + m) a = Inr d \<Longrightarrow>
   fst (scrape_attempts e a retries attempt s) = Some d
   \<and> calls (snd (scrape_attempts e a retries attempt s)) = calls s @ replicate (Suc m) (AppCall a)"
proof (induction m arbitrary: attempt s)
  case 0
  then show ?case by (simp add: scrape_attempts_ok world_fields)
next
  case (Suc m)
  have lt: "attempt < retries" and nl: "attempt \<noteq> retries - 1" using Suc.prems(1) by simp_all
  from Suc.prems(2) have "isl (app_api e (length (calls s) + 0) a)" by blast
  then obtain err where err: "app_api e (length (calls s)) a = Inl err" by (auto simp: isl_def)
  let ?s1 = "sleep (1000 * 2 ^ attempt) (snd (call_app e a s))"
  have len: "length (calls ?s1) = Suc (length (calls s))" by (simp add: world_fields)
  have 1: "m < retries - (attempt + 1)" using Suc.prems(1) by simp
  have 2: "\<forall>j < m. isl (app_api e (length (calls ?s1) + j) a)"
  proof (intro allI impI)
    fix j assume "j < m"
    then have "Suc j < Suc m" by simp
    with Suc.prems(2) have "isl (app_api e (length (calls s) + Suc j) a)" by blast
    then show "isl (app_api e (length (calls ?s1) + j) a)" by (simp add: len)
  qed
  have 3: "app_api e (length (calls ?s1) + m) a = Inr d" using Suc.prems(3) by (simp add: len)
  from Suc.IH[OF 1 2 3] lt nl err show ?case
    by (simp add: scrape_attempts_retry world_fields replicate_app_Cons_same)
qed

section \<open>Retry policy\<close>

text \<open>
  C5 (as amended). The durations passed to \<^verbatim>\<open>time.sleep\<close> by one call of
  \<^verbatim>\<open>scrape_app_safely\<close> are, in order, \<open>2 ^ (k - 1)\<close> seconds for \<open>k = 1, 2, ...\<close>, one
  between attempt \<open>k\<close> and attempt \<open>k + 1\<close>, where the number \<open>n\<close> of attempts made is at
  most \<open>retries\<close>: one second after the first failed attempt, two after the second.
  Durations are in milliseconds.
\<close>

theorem backoff_waits:
  "\<exists>n. n \<le> nat retries
     \<and> calls (snd (scrape_app_safely e app_id retries s)) = calls s @ replicate n (AppCall app_id)
     \<and> slept (snd (scrape_app_safely e app_id retries s))
         = slept s @ map (\<lambda>k. 1000 * 2 ^ (k - 1)) [1 ..< n]"
proof -
  obtain n where n: "n \<le> nat retries - 0"
    "calls (snd (scrape_attempts e app_id (nat retries) 0 s)) = calls s @ replicate n (AppCall app_id)"
    "slept (snd (scrape_attempts e app_id (nat retries) 0 s))
       = slept s @ map (\<lambda>k. 1000 * 2 ^ k) [0 ..< 0 + (n - 1)]"
    using scrape_attempts_trace[of 0 "nat retries" e app_id s] by blast
  have "map (\<lambda>k. 1000 * 2 ^ k) [0 ..< 0 + (n - 1)] = map (\<lambda>k. 1000 * 2 ^ (k - 1)) [1 ..< n]"
    (is "?l = ?r")
  proof (rule nth_equalityI)
    show "length ?l = length ?r" by simp
  next
    fix i assume "i < length ?l"
    then show "?l ! i = ?r ! i" by simp
  qed
  with n show ?thesis unfolding scrape_app_safely_def by (intro exI[of _ n]) simp
qed

text \<open>
  C5 as stated fails: with three attempts that all fail the waits are 1 and 2 seconds;
  the wait after the first failed attempt is not \<open>2 ^ 1\<close> seconds.
\<close>

theorem backoff_first_wait_counterexample:
  "slept (snd (scrape_app_safely env_down ''x'' 3 world0)) = [1000, 2000]
   \<and> slept (snd (scrape_app_safely env_down ''x'' 3 world0)) ! 0 \<noteq> 1000 * 2 ^ 1"
  by (simp add: scrape_app_safely_def scrape_attempts.simps call_app_def env_down_def world0_def
      sleep_def log_error_def)

text \<open>
  C6 (as amended). Only the failure of the final attempt is reported to the error log.
  When all the \<open>retries\<close> attempts of a call of \<^verbatim>\<open>scrape_app_safely\<close> fail (\<open>retries \<ge> 1\<close>),
  the call makes exactly \<open>retries\<close> attempts, appends exactly one message to the log, the
  one of the last attempt's failure, and returns the failure value \<^verbatim>\<open>None\<close>. When the first
  \<open>m < retries\<close> attempts fail and the next one succeeds, the call makes \<open>m + 1\<close> attempts,
  returns the record fetched and leaves the log as it was: none of the \<open>m\<close> intermediate
  failures is reported. With \<open>retries \<le> 0\<close> it does nothing and returns \<^verbatim>\<open>None\<close>. The
  attempt made after \<open>j\<close> earlier ones is the call at tick \<open>length (calls s) + j\<close>. The
  result is always a value: no exception leaves the function.
\<close>

theorem only_final_failure_logged:
  "(0 < retries \<and> (\<forall>j < nat retries. isl (app_api e (length (calls s) + j) app_id)) \<longrightarrow>
      (\<exists>s' err. scrape_app_safely e app_id retries s = (None, s')
         \<and> calls s' = calls s @ replicate (nat retries) (AppCall app_id)
         \<and> app_api e (length (calls s) + nat retries - 1) app_id = Inl err
         \<and> error_log s'
             = error_log s @ [(clock s' div 1000, ''Failed to scrape '' @ app_id @ '': '' @ err)]))
   \<and> (m < nat retries \<and> (\<forall>j < m. isl (app_api e (length (calls s) + j) app_id))
        \<and> app_api e (length (calls s) + m) app_id = Inr d \<longrightarrow>
      (\<exists>s'. scrape_app_safely e app_id retries s = (Some d, s')
         \<and> calls s' = calls s @ replicate (Suc m) (AppCall app_id)
         \<and> error_log s' = error_log s))
   \<and> (retries \<le> 0 \<longrightarrow> scrape_app_safely e app_id retries s = (None, s))"
proof (intro conjI impI)
  let ?n = "nat retries"
  let ?res = "scrape_attempts e app_id ?n 0 s"
  assume a: "0 < retries \<and> (\<forall>j < nat retries. isl (app_api e (length (calls s) + j) app_id))"
  then have none: "fst ?res = None"
    using scrape_attempts_all_fail[of ?n 0 e s app_id] by simp
  obtain s' where s': "?res = (None, s')" using none by (cases ?res) simp
  from a have pos: "0 < ?n" by simp
  from scrape_attempts_log[where e=e and a=app_id and retries="?n" and attempt=0 and s=s] s' pos
  obtain err where l: "length (calls s') = length (calls s) + ?n"
    "app_api e (length (calls s') - 1) app_id = Inl err"
    "error_log s' = error_log s @ [(clock s' div 1000, ''Failed to scrape '' @ app_id @ '': '' @ err)]"
    by auto
  from scrape_attempts_trace[of 0 ?n e app_id s] s'
  obtain n where n: "calls s' = calls s @ replicate n (AppCall app_id)" by auto
  with l(1) have "n = ?n" by simp
  with n l s' show "\<exists>s' err. scrape_app_safely e app_id retries s = (None, s')
         \<and> calls s' = calls s @ replicate (nat retries) (AppCall app_id)
         \<and> app_api e (length (calls s) + nat retries - 1) app_id = Inl err
         \<and> error_log s'
             = error_log s @ [(clock s' div 1000, ''Failed to scrape '' @ app_id @ '': '' @ err)]"
    by (intro exI[of _ s'] exI[of _ err]) (simp add: scrape_app_safely_def)
next
  let ?n = "nat retries"
  let ?res = "scrape_attempts e app_id ?n 0 s"
  assume a: "m < nat retries \<and> (\<forall>j < m. isl (app_api e (length (calls s) + j) app_id))
        \<and> app_api e (length (calls s) + m) app_id = Inr d"
  then have r: "fst ?res = Some d" "calls (snd ?res) = calls s @ replicate (Suc m) (AppCall app_id)"
    using scrape_attempts_succeeds[of m ?n 0 e s app_id d] by simp_all
  obtain s' where s': "?res = (Some d, s')" using r(1) by (cases ?res) simp
  from scrape_attempts_log[where e=e and a=app_id and retries="?n" and attempt=0 and s=s] s'
  have "error_log s' = error_log s" by simp
  with r(2) s' show "\<exists>s'. scrape_app_safely e app_id retries s = (Some d, s')
         \<and> calls s' = calls s @ replicate (Suc m) (AppCall app_id)
         \<and> error_log s' = error_log s"
    by (intro exI[of _ s']) (simp add: scrape_app_safely_def)
next
  assume "retries \<le> 0"
  then show "scrape_app_safely e app_id retries s = (None, s)"
    by (simp add: scrape_app_safely_def scrape_attempts_done)
qed

text \<open>Three attempts that all fail, and two failed attempts followed by a success.\<close>

theorem only_final_failure_logged_witness:
  "(\<exists>s'. scrape_app_safely env_down ''x'' 3 world0 = (None, s')
         \<and> calls s' = [AppCall ''x'', AppCall ''x'', AppCall ''x'']
         \<and> error_log s' = [(clock s' div 1000, ''Failed to scrape x: timeout'')])
   \<and> (\<exists>s'. scrape_app_safely env_third_time ''x'' 3 world0 = (Some (sample_app ''x''), s')
         \<and> calls s' = [AppCall ''x'', AppCall ''x'', AppCall ''x'']
         \<and> error_log s' = [])"
proof -
  have h1: "0 < (3::int) \<and> (\<forall>j < nat 3. isl (app_api env_down (length (calls world0) + j) ''x''))"
    by (simp add: env_down_def)
  have h2: "2 < nat 3 \<and> (\<forall>j < 2. isl (app_api env_third_time (length (calls world0) + j) ''x''))
        \<and> app_api env_third_time (length (calls world0) + 2) ''x'' = Inr (sample_app ''x'')"
    by (simp add: env_third_time_def world0_def)
  note t1 = only_final_failure_logged[of 3 env_down world0 "''x''" 0 "[]"]
  have "\<exists>s' err. scrape_app_safely env_down ''x'' 3 world0 = (None, s')
         \<and> calls s' = calls world0 @ replicate (nat 3) (AppCall ''x'')
         \<and> app_api env_down (length (calls world0) + nat 3 - 1) ''x'' = Inl err
         \<and> error_log s'
             = error_log world0 @ [(clock s' div 1000, ''Failed to scrape '' @ ''x'' @ '': '' @ err)]"
    by (rule mp[OF conjunct1[OF t1] h1])
  then obtain s1 err where 1: "scrape_app_safely env_down ''x'' 3 world0 = (None, s1)"
    "calls s1 = calls world0 @ replicate (nat 3) (AppCall ''x'')"
    "app_api env_down (length (calls world0) + nat 3 - 1) ''x'' = Inl err"
    "error_log s1 = error_log world0 @ [(clock s1 div 1000, ''Failed to scrape '' @ ''x'' @ '': '' @ err)]"
    by (elim exE conjE)
  from 1(3) have err: "err = ''timeout''" by (simp add: env_down_def)
  note t2 = only_final_failure_logged[of 3 env_third_time world0 "''x''" 2 "sample_app ''x''"]
  have "\<exists>s'. scrape_app_safely env_third_time ''x'' 3 world0 = (Some (sample_app ''x''), s')
         \<and> calls s' = calls world0 @ replicate (Suc 2) (AppCall ''x'')
         \<and> error_log s' = error_log world0"
    by (rule mp[OF conjunct1[OF conjunct2[OF t2]] h2])
  then obtain s2 where 2: "scrape_app_safely env_third_time ''x'' 3 world0 = (Some (sample_app ''x''), s2)"
    "calls s2 = calls world0 @ replicate (Suc 2) (AppCall ''x'')"
    "error_log s2 = error_log world0"
    by (elim exE conjE)
  have "\<exists>s'. scrape_app_safely env_down ''x'' 3 world0 = (None, s')
         \<and> calls s' = [AppCall ''x'', AppCall ''x'', AppCall ''x'']
         \<and> error_log s' = [(clock s' div 1000, ''Failed to scrape x: timeout'')]"
    using 1 err by (intro exI[of _ s1]) (simp add: world0_def numeral_3_eq_3 numeral_2_eq_2)
  moreover have "\<exists>s'. scrape_app_safely env_third_time ''x'' 3 world0 = (Some (sample_app ''x''), s')
         \<and> calls s' = [AppCall ''x'', AppCall ''x'', AppCall ''x'']
         \<and> error_log s' = []"
    using 2 by (intro exI[of _ s2]) (simp add: world0_def numeral_3_eq_3 numeral_2_eq_2)
  ultimately show ?thesis by (rule conjI)
qed

text \<open>
  C6 as stated fails: three attempts fail, the first two are not reported, and the log
  holds the single message of the third.
\<close>

theorem intermediate_failures_counterexample:
  "app_api env_down 0 ''x'' = Inl ''timeout''
   \<and> app_api env_down 1 ''x'' = Inl ''timeout''
   \<and> app_api env_down 2 ''x'' = Inl ''timeout''
   \<and> calls (snd (scrape_app_safely env_down ''x'' 3 world0))
       = [AppCall ''x'', AppCall ''x'', AppCall ''x'']
   \<and> error_log (snd (scrape_app_safely env_down ''x'' 3 world0))
       = [(3, ''Failed to scrape x: timeout'')]"
  by (simp add: scrape_app_safely_def scrape_attempts.simps call_app_def env_down_def world0_def
      sleep_def log_error_def)

section \<open>Checkpoint store\<close>

text \<open>
  C10. Loading after saving a checkpoint returns the checkpoint saved, and loading when
  no checkpoint file exists returns the state whose two lists are empty.
\<close>

theorem checkpoint_roundtrip:
  "load_checkpoint (save_checkpoint c s) = c
   \<and> (checkpoint_file s = None \<longrightarrow>
        load_checkpoint s = \<lparr>scraped_app_ids = [], failed_app_ids = []\<rparr>)"
  by (simp add: load_checkpoint_def save_checkpoint_def)

theorem checkpoint_roundtrip_witness:
  "checkpoint_file world0 = None
   \<and> load_checkpoint (save_checkpoint \<lparr>scraped_app_ids = [''a'', ''b''], failed_app_ids = [''c'']\<rparr> world0)
       = \<lparr>scraped_app_ids = [''a'', ''b''], failed_app_ids = [''c'']\<rparr>
   \<and> load_checkpoint world0 = \<lparr>scraped_app_ids = [], failed_app_ids = []\<rparr>"
proof -
  have h: "checkpoint_file world0 = None" by (simp add: world0_def)
  show ?thesis
    using h checkpoint_roundtrip[of "\<lparr>scraped_app_ids = [''a'', ''b''], failed_app_ids = [''c'']\<rparr>" world0]
    by simp
qed

section \<open>Discovery stage\<close>

lemma set_add_set: "set (set_add ids x) = insert x (set ids)"
  by (simp add: set_add_def)

lemma set_add_distinct: "distinct ids \<Longrightarrow> distinct (set_add ids x)"
  by (simp add: set_add_def)

lemma add_hits_set:
  "set (foldl (\<lambda>ids result. set_add ids (appId result)) ids results) = set ids \<union> appId ` set results"
  by (induction results arbitrary: ids) (auto simp: set_add_set)

lemma add_hits_distinct:
  "distinct ids \<Longrightarrow> distinct (foldl (\<lambda>ids result. set_add ids (appId result)) ids results)"
  by (induction results arbitrary: ids) (auto simp: set_add_distinct)

lemma call_search_split:
  "call_search e c n s = (search_api e (length (calls s)) c n, snd (call_search e c n s))"
  by (simp add: call_search_def Let_def)

lemma discover_loop_distinct:
  "distinct ids \<Longrightarrow> distinct (fst (discover_loop e n cats ids s))"
proof (induction cats arbitrary: ids s)
  case Nil
  then show ?case by simp
next
  case (Cons c cats)
  show ?case
  proof (cases "search_api e (length (calls s)) c n")
    case (Inl err)
    then show ?thesis using Cons
      by (subst discover_loop.simps, subst call_search_split) simp
  next
    case (Inr hits)
    then show ?thesis using Cons
      by (subst discover_loop.simps, subst call_search_split) (simp add: add_hits_distinct)
  qed
qed


lemma discover_loop_set:
  "set (fst (discover_loop e n cats ids s))
     = set ids \<union> (\<Union>i<length cats.
         case search_api e (length (calls s) + i) (cats ! i) n of
           Inl err \<Rightarrow> {} | Inr hits \<Rightarrow> appId ` set hits)"
proof (induction cats arbitrary: ids s)
  case Nil
  then show ?case by simp
next
  case (Cons c cats)
  have UnSuc: "\<And>A :: nat \<Rightarrow> string set. (\<Union>i<Suc (length cats). A i) = A 0 \<union> (\<Union>i<length cats. A (Suc i))"
    by (simp add: lessThan_Suc_eq_insert_0 image_image)
  show ?case
  proof (cases "search_api e (length (calls s)) c n")
    case (Inl err)
    show ?thesis
      apply (subst discover_loop.simps, subst call_search_split)
      apply (simp add: Inl Cons.IH world_fields)
      apply (simp add: UnSuc Inl)
      done
  next
    case (Inr hits)
    show ?thesis
      apply (subst discover_loop.simps, subst call_search_split)
      apply (simp add: Inr Cons.IH world_fields add_hits_set)
      apply (simp add: UnSuc Inr Un_assoc)
      done
  qed
qed


lemma count_list_distinct:
  "distinct xs \<Longrightarrow> x \<in> set xs \<Longrightarrow> count_list xs x = 1"
  by (induction xs) auto

text \<open>
  C8. The list returned by \<^verbatim>\<open>discover_apps_by_categories\<close> has no duplicates; every
  identifier in the result of a query that succeeded (the query of category \<open>i\<close> is the
  call made at tick \<open>length (calls s) + i\<close>) occurs in it exactly once, whatever number
  of queries returned it; and it holds nothing else.
\<close>

theorem discovery_dedup:
  "distinct (fst (discover_apps_by_categories e cats n s))
   \<and> (\<forall>i hits h. i < length cats \<and> search_api e (length (calls s) + i) (cats ! i) n = Inr hits
          \<and> h \<in> set hits
        \<longrightarrow> count_list (fst (discover_apps_by_categories e cats n s)) (appId h) = 1)
   \<and> (\<forall>x \<in> set (fst (discover_apps_by_categories e cats n s)).
        \<exists>i hits. i < length cats \<and> search_api e (length (calls s) + i) (cats ! i) n = Inr hits
          \<and> x \<in> appId ` set hits)"
proof -
  let ?out = "fst (discover_apps_by_categories e cats n s)"
  have d: "distinct ?out"
    by (simp add: discover_apps_by_categories_def discover_loop_distinct)
  have m: "set ?out = (\<Union>i<length cats.
         case search_api e (length (calls s) + i) (cats ! i) n of
           Inl err \<Rightarrow> {} | Inr hits \<Rightarrow> appId ` set hits)"
    by (simp add: discover_apps_by_categories_def discover_loop_set)
  have a: "count_list ?out (appId h) = 1"
    if "i < length cats" "search_api e (length (calls s) + i) (cats ! i) n = Inr hits" "h \<in> set hits"
    for i hits h
  proof -
    have "appId h \<in> set ?out" unfolding m using that by force
    then show ?thesis using d by (rule count_list_distinct[rotated])
  qed
  have b: "\<exists>i hits. i < length cats \<and> search_api e (length (calls s) + i) (cats ! i) n = Inr hits
          \<and> x \<in> appId ` set hits" if "x \<in> set ?out" for x
  proof -
    from that obtain i where i: "i < length cats"
      "x \<in> (case search_api e (length (calls s) + i) (cats ! i) n of
               Inl err \<Rightarrow> {} | Inr hits \<Rightarrow> appId ` set hits)"
      unfolding m by blast
    show ?thesis
    proof (cases "search_api e (length (calls s) + i) (cats ! i) n")
      case (Inl err)
      with i(2) show ?thesis by simp
    next
      case (Inr hits)
      with i show ?thesis by (intro exI[of _ i] exI[of _ hits]) simp
    qed
  qed
  show ?thesis using d a b by blast
qed

text \<open>Two queries whose results both include \<^verbatim>\<open>com.example.app\<close>.\<close>

theorem discovery_dedup_witness:
  "search_api env_up (length (calls world0) + 0) ([''music'', ''news''] ! 0) 30
     = Inr [\<lparr>appId = ''com.example.app'', hit_fields = []\<rparr>, \<lparr>appId = ''music'', hit_fields = []\<rparr>]
   \<and> search_api env_up (length (calls world0) + 1) ([''music'', ''news''] ! 1) 30
     = Inr [\<lparr>appId = ''com.example.app'', hit_fields = []\<rparr>, \<lparr>appId = ''news'', hit_fields = []\<rparr>]
   \<and> set (fst (discover_apps_by_categories env_up [''music'', ''news''] 30 world0))
     = {''com.example.app'', ''music'', ''news''}
   \<and> count_list (fst (discover_apps_by_categories env_up [''music'', ''news''] 30 world0))
       ''com.example.app'' = 1"
proof -
  let ?h = "\<lparr>appId = ''com.example.app'', hit_fields = []\<rparr>"
  let ?hits = "[?h, \<lparr>appId = ''music'', hit_fields = []\<rparr>]"
  have q0: "search_api env_up (length (calls world0) + 0) ([''music'', ''news''] ! 0) 30 = Inr ?hits"
    by (simp add: env_up_def)
  have q1: "search_api env_up (length (calls world0) + 1) ([''music'', ''news''] ! 1) 30
     = Inr [?h, \<lparr>appId = ''news'', hit_fields = []\<rparr>]"
    by (simp add: env_up_def)
  have pre: "(0::nat) < length [''music'', ''news''] \<and>
     search_api env_up (length (calls world0) + 0) ([''music'', ''news''] ! 0) 30 = Inr ?hits
     \<and> ?h \<in> set ?hits"
    using q0 by simp
  from discovery_dedup[of env_up "[''music'', ''news'']" 30 world0] pre
  have c: "count_list (fst (discover_apps_by_categories env_up [''music'', ''news''] 30 world0))
       (appId ?h) = 1"
    by blast
  have s: "set (fst (discover_apps_by_categories env_up [''music'', ''news''] 30 world0))
     = {''com.example.app'', ''music'', ''news''}"
    by (auto simp add: discover_apps_by_categories_def call_search_def env_up_def world0_def sleep_def
        set_add_def)
  show ?thesis using q0 q1 c s by simp
qed

section \<open>Batch runner\<close>

subsection \<open>One iteration of the runner\<close>

lemma scrape_app_safely_frame:
  "out_dir (snd (scrape_app_safely e a n s)) = out_dir s"
  "checkpoint_file (snd (scrape_app_safely e a n s)) = checkpoint_file s"
  "clock s \<le> clock (snd (scrape_app_safely e a n s))"
  using scrape_attempts_frame[of e a "nat n" 0 s] by (simp_all add: scrape_app_safely_def)

lemma scrape_app_safely_calls:
  "\<exists>m. calls (snd (scrape_app_safely e a n s)) = calls s @ replicate m (AppCall a)"
  using scrape_attempts_trace[of 0 "nat n" e a s] unfolding scrape_app_safely_def by blast

lemma attach_reviews_frame:
  "out_dir (snd (attach_reviews e ir rpa a d s)) = out_dir s"
  "checkpoint_file (snd (attach_reviews e ir rpa a d s)) = checkpoint_file s"
  "clock s \<le> clock (snd (attach_reviews e ir rpa a d s))"
  "calls (snd (attach_reviews e ir rpa a d s)) = calls s @ (if ir then [ReviewsCall a rpa] else [])"
  by (simp_all add: attach_reviews_def scrape_reviews_safely_def call_reviews_def Let_def
      log_error_def split: sum.splits)

lemma process_app_cases:
  obtains
    (skip) "fst (scrape_app_safely e a 3 (wd r)) = None \<or> fst (scrape_app_safely e a 3 (wd r)) = Some []"
      "process_app e ir rpa k idx a r = Inr (r\<lparr>wd := sleep 1200 (snd (scrape_app_safely e a 3 (wd r)))\<rparr>)"
  | (zero) d s1 d' s2 where
      "scrape_app_safely e a 3 (wd r) = (Some d, s1)" "d \<noteq> []"
      "attach_reviews e ir rpa a d s1 = (d', s2)" "k = 0"
      "process_app e ir rpa k idx a r = Inl (ZeroDivisionError, s2)"
  | (flush) d s1 d' s2 where
      "scrape_app_safely e a 3 (wd r) = (Some d, s1)" "d \<noteq> []"
      "attach_reviews e ir rpa a d s1 = (d', s2)" "k \<noteq> 0" "(int idx + 1) mod k = 0"
      "process_app e ir rpa k idx a r =
         Inr \<lparr>scraped_data = [], scraped_ids = set_add (scraped_ids r) a,
              ckpt = (ckpt r)\<lparr>scraped_app_ids := set_add (scraped_ids r) a\<rparr>,
              wd = sleep 1200 (save_checkpoint ((ckpt r)\<lparr>scraped_app_ids := set_add (scraped_ids r) a\<rparr>)
                     (save_batch e (scraped_data r @ [VDict d']) s2))\<rparr>"
  | (keep) d s1 d' s2 where
      "scrape_app_safely e a 3 (wd r) = (Some d, s1)" "d \<noteq> []"
      "attach_reviews e ir rpa a d s1 = (d', s2)" "k \<noteq> 0" "(int idx + 1) mod k \<noteq> 0"
      "process_app e ir rpa k idx a r =
         Inr \<lparr>scraped_data = scraped_data r @ [VDict d'], scraped_ids = set_add (scraped_ids r) a,
              ckpt = ckpt r, wd = sleep 1200 s2\<rparr>"
proof -
  obtain res s1 where f: "scrape_app_safely e a 3 (wd r) = (res, s1)"
    by (cases "scrape_app_safely e a 3 (wd r)")
  show ?thesis
  proof (cases res)
    case None
    with f show ?thesis by (intro skip) (simp_all add: process_app_def)
  next
    case (Some d)
    show ?thesis
    proof (cases "d = []")
      case True
      with f Some show ?thesis by (intro skip) (simp_all add: process_app_def)
    next
      case False
      obtain d' s2 where g: "attach_reviews e ir rpa a d s1 = (d', s2)"
        by (cases "attach_reviews e ir rpa a d s1")
      consider "k = 0" | "k \<noteq> 0" "(int idx + 1) mod k = 0" | "k \<noteq> 0" "(int idx + 1) mod k \<noteq> 0"
        by blast
      then show ?thesis
      proof cases
        case 1
        with f Some False g show ?thesis by (intro zero[of d s1 d' s2]) (simp_all add: process_app_def)
      next
        case 2
        with f Some False g show ?thesis
          by (intro flush[of d s1 d' s2]) (simp_all add: process_app_def Let_def)
      next
        case 3
        with f Some False g show ?thesis
          by (intro keep[of d s1 d' s2]) (simp_all add: process_app_def Let_def)
      qed
    qed
  qed
qed

subsection \<open>Files written by the runner\<close>

lemma update_entry:
  "(n, c) \<in> set (AList.update k v al) \<Longrightarrow> (n, c) \<in> set al \<or> (n, c) = (k, v)"
  by (induction al) (auto split: if_splits)

lemma save_batch_entry:
  "(n, c) \<in> set (out_dir (save_batch e data s)) \<Longrightarrow> (n, c) \<in> set (out_dir s) \<or> c \<noteq> []"
  by (auto simp: save_batch_def write_file_def dest: update_entry split: if_splits)

lemma process_app_entry:
  assumes "(n, c) \<in> set (out_dir (case process_app e ir rpa k idx a r of
                                     Inl (x, s') \<Rightarrow> s' | Inr r' \<Rightarrow> wd r'))"
  shows "(n, c) \<in> set (out_dir (wd r)) \<or> c \<noteq> []"
proof (cases rule: process_app_cases[where e=e and ir=ir and rpa=rpa and k=k and idx=idx and a=a and r=r])
  case skip
  with assms show ?thesis by (simp add: world_fields scrape_app_safely_frame)
next
  case (zero d s1 d' s2)
  have "out_dir s2 = out_dir (wd r)"
    using scrape_app_safely_frame(1)[of e a 3 "wd r"] attach_reviews_frame(1)[of e ir rpa a d s1] zero
    by simp
  with assms zero show ?thesis by simp
next
  case (flush d s1 d' s2)
  have "out_dir s2 = out_dir (wd r)"
    using scrape_app_safely_frame(1)[of e a 3 "wd r"] attach_reviews_frame(1)[of e ir rpa a d s1] flush
    by simp
  with assms flush show ?thesis
    by (auto simp: world_fields dest!: save_batch_entry)
next
  case (keep d s1 d' s2)
  have "out_dir s2 = out_dir (wd r)"
    using scrape_app_safely_frame(1)[of e a 3 "wd r"] attach_reviews_frame(1)[of e ir rpa a d s1] keep
    by simp
  with assms keep show ?thesis by (simp add: world_fields)
qed

lemma batch_loop_entry:
  "(n, c) \<in> set (out_dir (case batch_loop e ir rpa k idx ids r of
                             Inl (x, s') \<Rightarrow> s' | Inr r' \<Rightarrow> wd r'))
   \<Longrightarrow> (n, c) \<in> set (out_dir (wd r)) \<or> c \<noteq> []"
proof (induction ids arbitrary: idx r)
  case Nil
  then show ?case by simp
next
  case (Cons a ids)
  show ?case
  proof (cases "process_app e ir rpa k idx a r")
    case (Inl xs)
    with Cons.prems process_app_entry[of n c e ir rpa k idx a r] show ?thesis by simp
  next
    case (Inr r')
    with Cons.prems have "(n, c) \<in> set (out_dir (wd r')) \<or> c \<noteq> []"
      using Cons.IH[of "idx + 1" r'] by simp
    with Inr process_app_entry[of n c e ir rpa k idx a r] show ?thesis by auto
  qed
qed

text \<open>
  C9. \<^verbatim>\<open>_save_batch\<close> given empty data returns without writing, and after any run of
  \<^verbatim>\<open>batch_scrape_apps\<close>, whether it returned or raised, every file of the output directory
  is either a file that was there before the run, unchanged, or holds at least one
  record.
\<close>

theorem no_empty_batch_artifact:
  "save_batch e [] s = s
   \<and> (\<forall>(name, content) \<in> set (out_dir (world_after (batch_scrape_apps e app_ids ir rpa k s))).
        (name, content) \<in> set (out_dir s) \<or> content \<noteq> [])"
proof -
  have "(n, c) \<in> set (out_dir s) \<or> c \<noteq> []"
    if m: "(n, c) \<in> set (out_dir (world_after (batch_scrape_apps e app_ids ir rpa k s)))" for n c
  proof -
    let ?rem = "filter (\<lambda>aid. aid \<notin> set (set_of_list (scraped_app_ids (load_checkpoint s)))) app_ids"
    let ?r0 = "\<lparr>scraped_data = [], scraped_ids = set_of_list (scraped_app_ids (load_checkpoint s)),
                ckpt = load_checkpoint s, wd = s\<rparr>"
    show ?thesis
    proof (cases "?rem = []")
      case True
      with m show ?thesis by (simp add: batch_scrape_apps_def world_after_def)
    next
      case False
      show ?thesis
      proof (cases "batch_loop e ir rpa k 0 ?rem ?r0")
        case (Inl xs)
        with m False batch_loop_entry[of n c e ir rpa k 0 ?rem ?r0] show ?thesis
          by (simp add: batch_scrape_apps_def world_after_def Let_def)
      next
        case (Inr r')
        with m False have "(n, c) \<in> set (out_dir (wd r')) \<or> c \<noteq> []"
          by (auto simp: batch_scrape_apps_def world_after_def Let_def world_fields
              dest: save_batch_entry split: if_splits)
        with Inr batch_loop_entry[of n c e ir rpa k 0 ?rem ?r0] show ?thesis by auto
      qed
    qed
  qed
  then show ?thesis by (auto simp: save_batch_def)
qed


text \<open>The definitions unfolded to run a scenario.\<close>

lemmas run_defs = batch_scrape_apps_def process_app_def attach_reviews_def scrape_app_safely_def
  scrape_attempts.simps scrape_reviews_safely_def call_app_def call_reviews_def save_batch_def
  write_file_def batch_file_name_def save_checkpoint_def load_checkpoint_def log_error_def sleep_def
  set_of_list_def set_add_def world0_def tally_def sample_app_def sample_review_def world_after_def

lemma replicate_numeral: "replicate (numeral k) x = x # replicate (pred_numeral k) x"
  by (simp add: numeral_eq_Suc)

theorem no_empty_batch_artifact_witness:
  "(''apps_batch_III.json'', [VDict [(''appId'', VStr ''c''), (''score'', VInt 4)]])
     \<in> set (out_dir (world_after (batch_scrape_apps env_up [''a'', ''b'', ''c''] False 50 2 world0)))
   \<and> [VDict [(''appId'', VStr ''c''), (''score'', VInt 4)]] \<noteq> []
   \<and> (''apps_batch_III.json'', [VDict [(''appId'', VStr ''c''), (''score'', VInt 4)]])
     \<notin> set (out_dir world0)"
proof -
  let ?f = "(''apps_batch_III.json'', [VDict [(''appId'', VStr ''c''), (''score'', VInt 4)]])"
  have m: "?f \<in> set (out_dir (world_after (batch_scrape_apps env_up [''a'', ''b'', ''c''] False 50 2 world0)))"
    by (simp add: run_defs env_up_def Let_def replicate_numeral)
  from no_empty_batch_artifact[of env_up world0 "[''a'', ''b'', ''c'']" False 50 2] m
  have "?f \<in> set (out_dir world0) \<or> snd ?f \<noteq> []" by fastforce
  with m show ?thesis by (simp add: world0_def)
qed

section \<open>Batch merger\<close>

lemma is_record_for_serializable:
  "is_record_for x v \<Longrightarrow> is_record_for x (make_serializable v)"
proof (cases v)
  case (VDict kvs)
  assume "is_record_for x v"
  with VDict have "map_of kvs ''appId'' = Some (VStr x)" by (simp add: is_record_for_def)
  then have "map_of (map (\<lambda>(key, v). (key, make_serializable v)) kvs) ''appId'' = Some (VStr x)"
    by (induction kvs) (auto split: if_splits)
  with VDict show ?thesis by (simp add: is_record_for_def)
qed (simp_all add: is_record_for_def)

lemma records_for_serializable:
  "length (filter (is_record_for x) xs) \<le> length (filter (is_record_for x) (map make_serializable xs))"
  by (induction xs) (auto dest: is_record_for_serializable)

lemma filter_concat_length:
  "length (filter P (concat xss)) = sum_list (map (\<lambda>xs. length (filter P xs)) xss)"
  by (induction xss) auto

text \<open>
  C1 (as amended). \<^verbatim>\<open>merge_batches\<close> writes, under the output name, the records of all
  batch files (the files whose name starts with \<^verbatim>\<open>apps_batch_\<close>) concatenated in the order
  of the directory listing, each passed through \<^verbatim>\<open>_make_serializable\<close>, and removes
  nothing: the merged file has as many records as the batch files together, and at least
  as many records for an identifier as the batch files together hold for it. With no
  batch file it does nothing.
\<close>

theorem merge_concatenates:
  "(let batch_files = filter (\<lambda>(f, content). prefix ''apps_batch_'' f) (out_dir s);
        merged = map make_serializable (concat (map snd batch_files))
    in if batch_files = [] then merge_batches output_filename s = s
       else map_of (out_dir (merge_batches output_filename s)) output_filename = Some merged
            \<and> length merged = sum_list (map (\<lambda>(f, content). length content) batch_files)
            \<and> sum_list (map (\<lambda>(f, content). length (filter (is_record_for x) content)) batch_files)
                \<le> length (filter (is_record_for x) merged))"
proof -
  let ?b = "filter (\<lambda>(f, content). prefix ''apps_batch_'' f) (out_dir s)"
  have 1: "length (concat (map snd ?b)) = sum_list (map (\<lambda>(f, content). length content) ?b)"
    by (simp add: length_concat comp_def case_prod_unfold)
  have 2: "sum_list (map (\<lambda>(f, content). length (filter (is_record_for x) content)) ?b)
             = length (filter (is_record_for x) (concat (map snd ?b)))"
    by (simp add: filter_concat_length comp_def case_prod_unfold)
  show ?thesis
    using 1 2 records_for_serializable[of x "concat (map snd ?b)"]
    by (simp add: merge_batches_def Let_def write_file_def update_conv')
qed

text \<open>
  C1 as stated fails: two batch files each hold a record for \<^verbatim>\<open>X\<close>, and the merged file
  holds both records, not one.
\<close>

theorem merge_keeps_duplicates_counterexample:
  "map_of (out_dir (merge_batches ''apps_merged.json'' world_two_batches)) ''apps_merged.json''
     = Some [VDict [(''appId'', VStr ''X''), (''score'', VInt 1)],
             VDict [(''appId'', VStr ''X''), (''score'', VInt 2)]]
   \<and> length (filter (is_record_for ''X'')
        [VDict [(''appId'', VStr ''X''), (''score'', VInt 1)],
         VDict [(''appId'', VStr ''X''), (''score'', VInt 2)]]) \<noteq> 1"
  by (simp add: merge_batches_def world_two_batches_def world0_def write_file_def is_record_for_def)

subsection \<open>Reviews\<close>

lemma attach_reviews_True:
  "attach_reviews e True rpa a d s =
     (AList.update ''scraped_reviews''
        (VList (case reviews_api e (length (calls s)) a rpa of Inl err \<Rightarrow> [] | Inr result \<Rightarrow> result)) d,
      snd (scrape_reviews_safely e a rpa s))"
  by (simp add: attach_reviews_def scrape_reviews_safely_def call_reviews_def Let_def split: sum.splits)

lemma scrape_reviews_safely_trace:
  "calls (snd (scrape_reviews_safely e a rpa s)) = calls s @ [ReviewsCall a rpa]"
  "slept (snd (scrape_reviews_safely e a rpa s)) = slept s"
  by (simp_all add: scrape_reviews_safely_def call_reviews_def Let_def log_error_def split: sum.splits)

lemma save_batch_trace:
  "calls (save_batch e data s) = calls s" "slept (save_batch e data s) = slept s"
  "clock (save_batch e data s) = clock s" "checkpoint_file (save_batch e data s) = checkpoint_file s"
  "error_log (save_batch e data s) = error_log s"
  by (simp_all add: save_batch_def write_file_def)

text \<open>
  C7 (as amended). When the detail fetch of an identifier returns a non-empty record and
  \<^verbatim>\<open>include_reviews\<close> is set, the iteration (with a non-zero flush interval) completes, and
  between the detail fetch and the pacing sleep it makes exactly one call of the reviews
  fetch, with the configured count, and no backoff wait: the reviews fetch is not
  retried. The record is appended to the accumulator (or, at a flush position, written
  with the accumulator to a batch file) with the reviews returned under
  \<^verbatim>\<open>scraped_reviews\<close>, and with the empty list there when that one call failed.
\<close>

theorem reviews_fetched_once:
  assumes "scrape_app_safely e a 3 (wd r) = (Some d, s1)" and "d \<noteq> []" and "k \<noteq> 0"
  shows "\<exists>r' reviews.
     process_app e True rpa k idx a r = Inr r'
     \<and> calls (wd r') = calls s1 @ [ReviewsCall a rpa]
     \<and> slept (wd r') = slept s1 @ [1200]
     \<and> reviews = (case reviews_api e (length (calls s1)) a rpa of Inl err \<Rightarrow> [] | Inr result \<Rightarrow> result)
     \<and> (if (int idx + 1) mod k = 0
        then scraped_data r' = []
             \<and> out_dir (wd r')
                 = out_dir (save_batch e
                     (scraped_data r @ [VDict (AList.update ''scraped_reviews'' (VList reviews) d)])
                     (snd (scrape_reviews_safely e a rpa s1)))
        else scraped_data r'
               = scraped_data r @ [VDict (AList.update ''scraped_reviews'' (VList reviews) d)])"
proof (cases "(int idx + 1) mod k = 0")
  case True
  with assms show ?thesis
    by (simp add: process_app_def attach_reviews_True Let_def world_fields save_batch_trace
        scrape_reviews_safely_trace)
next
  case False
  with assms show ?thesis
    by (simp add: process_app_def attach_reviews_True Let_def world_fields
        scrape_reviews_safely_trace)
qed

text \<open>The detail fetch succeeds and the reviews fetch fails: the record is kept, with an
  empty review list.\<close>

theorem reviews_fetched_once_witness:
  "scrape_app_safely env_reviews_flaky ''a'' 3 (wd runner0)
     = (Some (sample_app ''a''), world0\<lparr>calls := [AppCall ''a'']\<rparr>)
   \<and> sample_app ''a'' \<noteq> [] \<and> (10::int) \<noteq> 0
   \<and> reviews_api env_reviews_flaky (length (calls (world0\<lparr>calls := [AppCall ''a'']\<rparr>))) ''a'' 50
       = Inl ''timeout''
   \<and> (\<exists>r'. process_app env_reviews_flaky True 50 10 0 ''a'' runner0 = Inr r'
          \<and> calls (wd r') = [AppCall ''a'', ReviewsCall ''a'' 50]
          \<and> scraped_data r'
              = [VDict [(''appId'', VStr ''a''), (''score'', VInt 4), (''scraped_reviews'', VList [])]])"
proof -
  let ?s1 = "world0\<lparr>calls := [AppCall ''a'']\<rparr>"
  have h1: "scrape_app_safely env_reviews_flaky ''a'' 3 (wd runner0) = (Some (sample_app ''a''), ?s1)"
    by (simp add: scrape_app_safely_def scrape_attempts.simps call_app_def env_reviews_flaky_def
        env_up_def runner0_def world0_def)
  have h2: "sample_app ''a'' \<noteq> []" by (simp add: sample_app_def)
  have h3: "(10::int) \<noteq> 0" by simp
  have q: "reviews_api env_reviews_flaky (length (calls ?s1)) ''a'' 50 = Inl ''timeout''"
    by (simp add: env_reviews_flaky_def)
  from reviews_fetched_once[OF h1 h2 h3, of 50 0] q h1 h2
  show ?thesis
    by (auto simp: runner0_def world0_def sample_app_def)
qed

text \<open>
  C7 as stated fails: the reviews fetch is not made through the retry policy. Its first
  call fails, a second attempt would have succeeded, and the run makes no second attempt
  and no backoff wait (the only sleep is the pacing delay).
\<close>

theorem reviews_not_retried_counterexample:
  "reviews_api env_reviews_flaky 1 ''a'' 50 = Inl ''timeout''
   \<and> reviews_api env_reviews_flaky 2 ''a'' 50 = Inr [sample_review]
   \<and> calls (world_after (batch_scrape_apps env_reviews_flaky [''a''] True 50 10 world0))
       = [AppCall ''a'', ReviewsCall ''a'' 50]
   \<and> slept (world_after (batch_scrape_apps env_reviews_flaky [''a''] True 50 10 world0)) = [1200]"
  by (simp add: run_defs env_reviews_flaky_def env_up_def Let_def)

subsection \<open>Failed identifiers\<close>

text \<open>
  C2, on the code: the detail fetch of the only identifier fails on all three attempts.
  The run goes on to its end and the identifier is not in \<^verbatim>\<open>scraped_app_ids\<close>, but it is
  not recorded in \<^verbatim>\<open>failed_app_ids\<close> either, and \<^verbatim>\<open>get_statistics\<close> reports no failure.
\<close>

theorem failed_ids_not_recorded:
  "batch_scrape_apps env_down [''a''] False 50 10 world0
     = Inr \<lparr>clock = 4200, calls = [AppCall ''a'', AppCall ''a'', AppCall ''a''],
            slept = [1000, 2000, 1200],
            checkpoint_file = Some \<lparr>scraped_app_ids = [], failed_app_ids = []\<rparr>,
            error_log = [(3, ''Failed to scrape a: timeout'')], out_dir = []\<rparr>
   \<and> get_statistics (world_after (batch_scrape_apps env_down [''a''] False 50 10 world0)) = (0, 0)"
  by (simp add: run_defs get_statistics_def env_down_def Let_def)

subsection \<open>Calls made and identifiers completed by the loop\<close>

lemma scrape_app_safely_ok:
  "app_api e (length (calls s)) a = Inr d \<Longrightarrow>
   scrape_app_safely e a 3 s = (Some d, snd (call_app e a s))"
  by (simp add: scrape_app_safely_def scrape_attempts_ok)

lemma process_app_calls:
  "\<exists>new. calls (case process_app e ir rpa k idx a r of Inl (x, s') \<Rightarrow> s' | Inr r' \<Rightarrow> wd r')
            = calls (wd r) @ new
         \<and> set new \<subseteq> {AppCall a, ReviewsCall a rpa}"
proof -
  obtain m where m: "calls (snd (scrape_app_safely e a 3 (wd r))) = calls (wd r) @ replicate m (AppCall a)"
    using scrape_app_safely_calls by blast
  have rv: "calls s2 = calls (wd r) @ replicate m (AppCall a) @ (if ir then [ReviewsCall a rpa] else [])"
    if "scrape_app_safely e a 3 (wd r) = (Some d, s1)" "attach_reviews e ir rpa a d s1 = (d', s2)"
    for d s1 d' s2
    using that m attach_reviews_frame(4)[of e ir rpa a d s1] by simp
  show ?thesis
  proof (cases rule: process_app_cases[where e=e and ir=ir and rpa=rpa and k=k and idx=idx and a=a and r=r])
    case skip
    with m show ?thesis by (intro exI[of _ "replicate m (AppCall a)"]) (auto simp: world_fields)
  next
    case (zero d s1 d' s2)
    with rv[OF zero(1,3)] show ?thesis
      by (intro exI[of _ "replicate m (AppCall a) @ (if ir then [ReviewsCall a rpa] else [])"]) auto
  next
    case (flush d s1 d' s2)
    with rv[OF flush(1,3)] show ?thesis
      by (intro exI[of _ "replicate m (AppCall a) @ (if ir then [ReviewsCall a rpa] else [])"])
         (auto simp: world_fields save_batch_trace)
  next
    case (keep d s1 d' s2)
    with rv[OF keep(1,3)] show ?thesis
      by (intro exI[of _ "replicate m (AppCall a) @ (if ir then [ReviewsCall a rpa] else [])"])
         (auto simp: world_fields)
  qed
qed

lemma batch_loop_calls:
  "\<exists>new. calls (case batch_loop e ir rpa k idx ids r of Inl (x, s') \<Rightarrow> s' | Inr r' \<Rightarrow> wd r')
            = calls (wd r) @ new
         \<and> (\<forall>c \<in> set new. \<exists>a \<in> set ids. c = AppCall a \<or> c = ReviewsCall a rpa)"
proof (induction ids arbitrary: idx r)
  case Nil
  then show ?case by simp
next
  case (Cons a ids)
  obtain new where new:
    "calls (case process_app e ir rpa k idx a r of Inl (x, s') \<Rightarrow> s' | Inr r' \<Rightarrow> wd r')
       = calls (wd r) @ new" "set new \<subseteq> {AppCall a, ReviewsCall a rpa}"
    using process_app_calls by blast
  show ?case
  proof (cases "process_app e ir rpa k idx a r")
    case (Inl xs)
    with new show ?thesis by (intro exI[of _ new]) auto
  next
    case (Inr r')
    obtain new' where new':
      "calls (case batch_loop e ir rpa k (idx + 1) ids r' of Inl (x, s') \<Rightarrow> s' | Inr r'' \<Rightarrow> wd r'')
         = calls (wd r') @ new'"
      "\<forall>c \<in> set new'. \<exists>a \<in> set ids. c = AppCall a \<or> c = ReviewsCall a rpa"
      using Cons.IH by blast
    from Inr new new' show ?thesis by (intro exI[of _ "new @ new'"]) auto
  qed
qed

lemma process_app_completed:
  assumes "app_api e (length (calls (wd r))) a = Inr d" "d \<noteq> []"
    and "process_app e ir rpa k idx a r = Inr r'"
  shows "set (scraped_ids r') = insert a (set (scraped_ids r))"
  using assms
  by (auto simp: process_app_def scrape_app_safely_ok Let_def set_add_def
      split: prod.splits if_splits)

lemma batch_loop_completed:
  assumes "\<forall>t. \<forall>a \<in> set ids. \<exists>d. app_api e t a = Inr d \<and> d \<noteq> []"
    and "batch_loop e ir rpa k idx ids r = Inr r'"
  shows "set (scraped_ids r') = set (scraped_ids r) \<union> set ids"
  using assms
proof (induction ids arbitrary: idx r)
  case Nil
  then show ?case by simp
next
  case (Cons a ids)
  from Cons.prems(1) obtain d where d: "app_api e (length (calls (wd r))) a = Inr d" "d \<noteq> []"
    by (meson list.set_intros(1))
  from Cons.prems(2) obtain r1 where r1: "process_app e ir rpa k idx a r = Inr r1"
    "batch_loop e ir rpa k (idx + 1) ids r1 = Inr r'"
    by (auto split: sum.splits)
  have "set (scraped_ids r1) = insert a (set (scraped_ids r))"
    using process_app_completed[OF d r1(1)] .
  moreover have "set (scraped_ids r') = set (scraped_ids r1) \<union> set ids"
    using Cons.IH[OF _ r1(2)] Cons.prems(1) by simp
  ultimately show ?case by auto
qed

lemma batch_scrape_apps_noop:
  "remaining_ids app_ids s = [] \<Longrightarrow> batch_scrape_apps e app_ids ir rpa k s = Inr s"
  by (simp add: batch_scrape_apps_def remaining_ids_def Let_def)

lemma batch_scrape_apps_unfold:
  "remaining_ids app_ids s \<noteq> [] \<Longrightarrow>
   batch_scrape_apps e app_ids ir rpa k s =
     (case batch_loop e ir rpa k 0 (remaining_ids app_ids s)
             \<lparr>scraped_data = [], scraped_ids = set_of_list (scraped_app_ids (load_checkpoint s)),
              ckpt = load_checkpoint s, wd = s\<rparr> of
        Inl x \<Rightarrow> Inl x
      | Inr r \<Rightarrow>
          Inr (save_checkpoint ((ckpt r)\<lparr>scraped_app_ids := scraped_ids r\<rparr>)
                 (if scraped_data r \<noteq> [] then save_batch e (scraped_data r) (wd r) else wd r)))"
  by (simp add: batch_scrape_apps_def remaining_ids_def Let_def split: sum.splits)

lemma remaining_ids_set:
  "set (remaining_ids app_ids s) = set app_ids - set (scraped_app_ids (load_checkpoint s))"
  by (auto simp: remaining_ids_def set_of_list_def)

text \<open>
  C3. The runner processes the identifiers that are not in the completed list of the
  loaded checkpoint and no others: when there is none it returns at once and leaves the
  world as it is, and every call it makes to the upstream client is a detail or reviews
  fetch for such an identifier. Hence, after a run in which no detail fetch failed (each
  returned a non-empty record) and which returned normally, all the identifiers given are
  completed, and a second run over the same identifiers, whatever the upstream client
  and the options then are, makes no call and changes nothing, the checkpoint included.
\<close>

theorem resumable_idempotent:
  "(remaining_ids app_ids s = [] \<longrightarrow> batch_scrape_apps e app_ids ir rpa k s = Inr s)
   \<and> (\<exists>new. calls (world_after (batch_scrape_apps e app_ids ir rpa k s)) = calls s @ new
         \<and> (\<forall>c \<in> set new. \<exists>a \<in> set app_ids - set (scraped_app_ids (load_checkpoint s)).
                c = AppCall a \<or> c = ReviewsCall a rpa))
   \<and> ((\<forall>t. \<forall>a \<in> set app_ids. \<exists>d. app_api e t a = Inr d \<and> d \<noteq> [])
        \<and> batch_scrape_apps e app_ids ir rpa k s = Inr s1
      \<longrightarrow> set app_ids \<subseteq> set (scraped_app_ids (load_checkpoint s1))
          \<and> batch_scrape_apps e' app_ids ir' rpa' k' s1 = Inr s1)"
proof (intro conjI impI)
  assume "remaining_ids app_ids s = []"
  then show "batch_scrape_apps e app_ids ir rpa k s = Inr s" by (rule batch_scrape_apps_noop)
next
  let ?r0 = "\<lparr>scraped_data = [], scraped_ids = set_of_list (scraped_app_ids (load_checkpoint s)),
              ckpt = load_checkpoint s, wd = s\<rparr>"
  show "\<exists>new. calls (world_after (batch_scrape_apps e app_ids ir rpa k s)) = calls s @ new
         \<and> (\<forall>c \<in> set new. \<exists>a \<in> set app_ids - set (scraped_app_ids (load_checkpoint s)).
                c = AppCall a \<or> c = ReviewsCall a rpa)"
  proof (cases "remaining_ids app_ids s = []")
    case True
    then show ?thesis by (intro exI[of _ "[]"]) (simp add: batch_scrape_apps_noop world_after_def)
  next
    case False
    obtain new where new:
      "calls (case batch_loop e ir rpa k 0 (remaining_ids app_ids s) ?r0 of
                Inl (x, s') \<Rightarrow> s' | Inr r' \<Rightarrow> wd r') = calls (wd ?r0) @ new"
      "\<forall>c \<in> set new. \<exists>a \<in> set (remaining_ids app_ids s). c = AppCall a \<or> c = ReviewsCall a rpa"
      using batch_loop_calls by blast
    have "calls (world_after (batch_scrape_apps e app_ids ir rpa k s)) = calls s @ new"
      using new(1) False
      by (auto simp: batch_scrape_apps_unfold world_after_def world_fields save_batch_trace
          split: sum.splits)
    with new(2) show ?thesis unfolding remaining_ids_set by blast
  qed
next
  assume a: "(\<forall>t. \<forall>a \<in> set app_ids. \<exists>d. app_api e t a = Inr d \<and> d \<noteq> [])
        \<and> batch_scrape_apps e app_ids ir rpa k s = Inr s1"
  let ?r0 = "\<lparr>scraped_data = [], scraped_ids = set_of_list (scraped_app_ids (load_checkpoint s)),
              ckpt = load_checkpoint s, wd = s\<rparr>"
  show "set app_ids \<subseteq> set (scraped_app_ids (load_checkpoint s1))"
  proof (cases "remaining_ids app_ids s = []")
    case True
    then have "s1 = s" using a by (simp add: batch_scrape_apps_noop)
    moreover have "set app_ids - set (scraped_app_ids (load_checkpoint s)) = {}"
      using True remaining_ids_set[of app_ids s] by simp
    ultimately show ?thesis by blast
  next
    case False
    from a False obtain r' where r':
      "batch_loop e ir rpa k 0 (remaining_ids app_ids s) ?r0 = Inr r'"
      "scraped_app_ids (load_checkpoint s1) = scraped_ids r'"
      by (auto simp: batch_scrape_apps_unfold load_checkpoint_def save_checkpoint_def
          split: sum.splits)
    have ok: "\<forall>t. \<forall>a \<in> set (remaining_ids app_ids s). \<exists>d. app_api e t a = Inr d \<and> d \<noteq> []"
      using a by (simp add: remaining_ids_set)
    have "set (scraped_ids r') = set (scraped_ids ?r0) \<union> set (remaining_ids app_ids s)"
      using batch_loop_completed[OF ok r'(1)] .
    then show ?thesis using r'(2) by (auto simp: remaining_ids_set set_of_list_def)
  qed
  then have "remaining_ids app_ids s1 = []"
    by (auto simp: remaining_ids_def set_of_list_def filter_empty_conv)
  then show "batch_scrape_apps e' app_ids ir' rpa' k' s1 = Inr s1" by (rule batch_scrape_apps_noop)
qed


text \<open>A first run over three identifiers with a working upstream client, then a second
  run over the same identifiers.\<close>

theorem resumable_idempotent_witness:
  "batch_scrape_apps env_up [''a'', ''b'', ''c''] False 50 2 world0
     = Inr \<lparr>clock = 3600, calls = [AppCall ''a'', AppCall ''b'', AppCall ''c''],
            slept = [1200, 1200, 1200],
            checkpoint_file = Some \<lparr>scraped_app_ids = [''c'', ''b'', ''a''], failed_app_ids = []\<rparr>,
            error_log = [],
            out_dir =
              [(''apps_batch_I.json'',
                [VDict [(''appId'', VStr ''a''), (''score'', VInt 4)],
                 VDict [(''appId'', VStr ''b''), (''score'', VInt 4)]]),
               (''apps_batch_III.json'', [VDict [(''appId'', VStr ''c''), (''score'', VInt 4)]])]\<rparr>
   \<and> batch_scrape_apps env_down [''a'', ''b'', ''c''] True 10 7
        \<lparr>clock = 3600, calls = [AppCall ''a'', AppCall ''b'', AppCall ''c''],
         slept = [1200, 1200, 1200],
         checkpoint_file = Some \<lparr>scraped_app_ids = [''c'', ''b'', ''a''], failed_app_ids = []\<rparr>,
         error_log = [],
         out_dir =
           [(''apps_batch_I.json'',
             [VDict [(''appId'', VStr ''a''), (''score'', VInt 4)],
              VDict [(''appId'', VStr ''b''), (''score'', VInt 4)]]),
            (''apps_batch_III.json'', [VDict [(''appId'', VStr ''c''), (''score'', VInt 4)]])]\<rparr>
     = Inr \<lparr>clock = 3600, calls = [AppCall ''a'', AppCall ''b'', AppCall ''c''],
            slept = [1200, 1200, 1200],
            checkpoint_file = Some \<lparr>scraped_app_ids = [''c'', ''b'', ''a''], failed_app_ids = []\<rparr>,
            error_log = [],
            out_dir =
              [(''apps_batch_I.json'',
                [VDict [(''appId'', VStr ''a''), (''score'', VInt 4)],
                 VDict [(''appId'', VStr ''b''), (''score'', VInt 4)]]),
               (''apps_batch_III.json'', [VDict [(''appId'', VStr ''c''), (''score'', VInt 4)]])]\<rparr>"
proof -
  let ?s1 = "\<lparr>clock = 3600, calls = [AppCall ''a'', AppCall ''b'', AppCall ''c''],
            slept = [1200, 1200, 1200],
            checkpoint_file = Some \<lparr>scraped_app_ids = [''c'', ''b'', ''a''], failed_app_ids = []\<rparr>,
            error_log = [],
            out_dir =
              [(''apps_batch_I.json'',
                [VDict [(''appId'', VStr ''a''), (''score'', VInt 4)],
                 VDict [(''appId'', VStr ''b''), (''score'', VInt 4)]]),
               (''apps_batch_III.json'', [VDict [(''appId'', VStr ''c''), (''score'', VInt 4)]])]\<rparr>"
  have run1: "batch_scrape_apps env_up [''a'', ''b'', ''c''] False 50 2 world0 = Inr ?s1"
    by (simp add: run_defs env_up_def Let_def replicate_numeral)
  have ok: "\<forall>t. \<forall>a \<in> set [''a'', ''b'', ''c'']. \<exists>d. app_api env_up t a = Inr d \<and> d \<noteq> []"
    by (simp add: env_up_def sample_app_def)
  from resumable_idempotent[of "[''a'', ''b'', ''c'']" world0 env_up False 50 2 ?s1 env_down True 10 7]
    ok run1
  have "batch_scrape_apps env_down [''a'', ''b'', ''c''] True 10 7 ?s1 = Inr ?s1" by blast
  with run1 show ?thesis by simp
qed

subsection \<open>Flush cadence\<close>


















subsection \<open>The list of failed identifiers is never written\<close>

text \<open>No run of the batch runner changes \<^verbatim>\<open>failed_app_ids\<close>: whatever the upstream client
  does, the list in the checkpoint after the run is the list before it.\<close>

lemma load_checkpoint_cong:
  "checkpoint_file s' = checkpoint_file s \<Longrightarrow> load_checkpoint s' = load_checkpoint s"
  by (simp add: load_checkpoint_def)

lemma process_app_failed_ids:
  assumes "failed_app_ids (ckpt r) = F" "failed_app_ids (load_checkpoint (wd r)) = F"
  shows "case process_app e ir rpa k idx a r of
           Inl (x, s') \<Rightarrow> failed_app_ids (load_checkpoint s') = F
         | Inr r' \<Rightarrow> failed_app_ids (ckpt r') = F \<and> failed_app_ids (load_checkpoint (wd r')) = F"
proof (cases rule: process_app_cases[where e=e and ir=ir and rpa=rpa and k=k and idx=idx and a=a and r=r])
  case skip
  have "load_checkpoint (sleep 1200 (snd (scrape_app_safely e a 3 (wd r)))) = load_checkpoint (wd r)"
    by (rule load_checkpoint_cong) (simp add: world_fields scrape_app_safely_frame)
  with skip assms show ?thesis by simp
next
  case (zero d s1 d' s2)
  have "checkpoint_file s2 = checkpoint_file (wd r)"
    using scrape_app_safely_frame(2)[of e a 3 "wd r"] attach_reviews_frame(2)[of e ir rpa a d s1] zero
    by simp
  then have "load_checkpoint s2 = load_checkpoint (wd r)" by (rule load_checkpoint_cong)
  with zero assms show ?thesis by simp
next
  case (flush d s1 d' s2)
  with assms show ?thesis
    by (simp add: load_checkpoint_def world_fields)
next
  case (keep d s1 d' s2)
  have "checkpoint_file (sleep 1200 s2) = checkpoint_file (wd r)"
    using scrape_app_safely_frame(2)[of e a 3 "wd r"] attach_reviews_frame(2)[of e ir rpa a d s1] keep
    by (simp add: world_fields)
  then have "load_checkpoint (sleep 1200 s2) = load_checkpoint (wd r)" by (rule load_checkpoint_cong)
  with keep assms show ?thesis by simp
qed

lemma batch_loop_failed_ids:
  assumes "failed_app_ids (ckpt r) = F" "failed_app_ids (load_checkpoint (wd r)) = F"
  shows "case batch_loop e ir rpa k idx ids r of
           Inl (x, s') \<Rightarrow> failed_app_ids (load_checkpoint s') = F
         | Inr r' \<Rightarrow> failed_app_ids (ckpt r') = F \<and> failed_app_ids (load_checkpoint (wd r')) = F"
  using assms
proof (induction ids arbitrary: idx r)
  case Nil
  then show ?case by simp
next
  case (Cons a ids)
  show ?case
  proof (cases "process_app e ir rpa k idx a r")
    case (Inl xs)
    with process_app_failed_ids[OF Cons.prems, of e ir rpa k idx a] show ?thesis
      by (simp split: prod.splits)
  next
    case (Inr r1)
    with process_app_failed_ids[OF Cons.prems, of e ir rpa k idx a]
    have "failed_app_ids (ckpt r1) = F" "failed_app_ids (load_checkpoint (wd r1)) = F" by simp_all
    from Cons.IH[OF this, of "idx + 1"] Inr show ?thesis by simp
  qed
qed

lemma failed_app_ids_never_written:
  "failed_app_ids (load_checkpoint (world_after (batch_scrape_apps e app_ids ir rpa k s)))
     = failed_app_ids (load_checkpoint s)"
proof (cases "remaining_ids app_ids s = []")
  case True
  then show ?thesis by (simp add: batch_scrape_apps_noop world_after_def)
next
  case False
  let ?r0 = "\<lparr>scraped_data = [], scraped_ids = set_of_list (scraped_app_ids (load_checkpoint s)),
              ckpt = load_checkpoint s, wd = s\<rparr>"
  have "case batch_loop e ir rpa k 0 (remaining_ids app_ids s) ?r0 of
           Inl (x, s') \<Rightarrow> failed_app_ids (load_checkpoint s') = failed_app_ids (load_checkpoint s)
         | Inr r' \<Rightarrow> failed_app_ids (ckpt r') = failed_app_ids (load_checkpoint s)
                    \<and> failed_app_ids (load_checkpoint (wd r')) = failed_app_ids (load_checkpoint s)"
    by (rule batch_loop_failed_ids) simp_all
  then show ?thesis using False
    by (auto simp: batch_scrape_apps_unfold world_after_def load_checkpoint_def save_checkpoint_def
        split: sum.splits prod.splits)
qed

end
